theory Spec2Isabelle
  imports Complex_Main
begin

section \<open>The separation analyzer of \<open>binary.py\<close>\<close>

text \<open>
  The class \<open>test\<close> of \<open>binary.py\<close> has one method, \<open>fit\<close>, which bins predicted
  probabilities by quantile (\<open>pd.qcut\<close>), aggregates the labels per bin and derives the
  columns of a results table and the Kolmogorov-Smirnov coefficient.

  Conventions of the embedding:
  \<^item> \<open>y_proba\<close> and \<open>y_true\<close> are sequences, modelled as lists; what line 72 does with
    them depends on their Python type, so there is \<open>fit\<close> for two numpy arrays and
    \<open>fit_series\<close> for two pandas Series with the default index; labels are Python integers
    (\<open>int\<close>), probabilities are exact rationals (\<open>rat\<close>): the rounding of IEEE doubles is
    not modelled; \<open>bins\<close> is a natural number;
  \<^item> a column produced by a true division is a list of \<open>pyfloat\<close>, which adds the
    non-finite values that pandas produces on a zero divisor instead of raising;
  \<^item> the DataFrame \<open>t\<close> is a record of its columns, each a list with one entry per bin;
  \<^item> an exception is a value \<open>Inl e\<close>; the attributes that \<open>fit\<close> sets on \<open>self\<close>
    are the record returned under \<open>Inr\<close>;
  \<^item> the functions of numpy and pandas that \<open>fit\<close> calls are modelled by what they
    compute for these arguments: \<open>qcut\<close> with linear interpolation of the quantiles and
    \<open>duplicates='drop'\<close>, \<open>groupby\<close> on a categorical column with one group per
    category, and the column arithmetic of \<open>Series\<close>.
\<close>

subsection \<open>Errors and floating-point results\<close>

datatype error = ValueError | TypeError

datatype pyfloat = Fin rat | PInf | NInf | NaN

text \<open>\<open>Series.div\<close> on integer data: a zero divisor gives an infinity or NaN.\<close>

definition div_col :: "int \<Rightarrow> int \<Rightarrow> pyfloat" where
  "div_col a b =
     (if b \<noteq> 0 then Fin (of_int a / of_int b)
      else if 0 < a then PInf
      else if a < 0 then NInf
      else NaN)"

fun sub_float :: "pyfloat \<Rightarrow> pyfloat \<Rightarrow> pyfloat" where
  "sub_float (Fin a) (Fin b) = Fin (a - b)"
| "sub_float NaN _ = NaN"
| "sub_float _ NaN = NaN"
| "sub_float PInf PInf = NaN"
| "sub_float NInf NInf = NaN"
| "sub_float PInf _ = PInf"
| "sub_float NInf _ = NInf"
| "sub_float (Fin _) PInf = NInf"
| "sub_float (Fin _) NInf = PInf"

fun abs_float :: "pyfloat \<Rightarrow> pyfloat" where
  "abs_float (Fin a) = Fin \<bar>a\<bar>"
| "abs_float PInf = PInf"
| "abs_float NInf = PInf"
| "abs_float NaN = NaN"

text \<open>The larger of two values neither of which is NaN.\<close>

fun max_float :: "pyfloat \<Rightarrow> pyfloat \<Rightarrow> pyfloat" where
  "max_float (Fin a) (Fin b) = Fin (max a b)"
| "max_float PInf _ = PInf"
| "max_float _ PInf = PInf"
| "max_float NInf b = b"
| "max_float a NInf = a"
| "max_float a _ = a"

text \<open>\<open>Series.max()\<close> skips NaN; it is NaN when nothing is left (also for an empty column).\<close>

definition series_max :: "pyfloat list \<Rightarrow> pyfloat" where
  "series_max xs =
     (case filter (\<lambda>x. x \<noteq> NaN) xs of
        [] \<Rightarrow> NaN
      | y # ys \<Rightarrow> foldl max_float y ys)"

subsection \<open>Quantile binning: \<open>pd.qcut(x, q, duplicates='drop')\<close>\<close>

text \<open>
  An interval \<open>(left, right]\<close>, as the categories of the categorical that \<open>qcut\<close> returns
  and the \<open>range\<close> column of the table hold them.
\<close>

record interval =
  left :: rat
  right :: rat


text \<open>
  The categorical column: its categories in ascending order, and for every observation
  the position of its category, or \<open>None\<close> for the missing value.
\<close>

record categorical =
  categories :: "interval list"
  codes :: "nat option list"

text \<open>\<open>np.linspace(0, 1, q + 1)\<close>.\<close>

definition linspace01 :: "nat \<Rightarrow> rat list" where
  "linspace01 q =
     (if q = 0 then [0] else map (\<lambda>i. of_nat i / of_nat q) [0..<Suc q])"

text \<open>
  The quantile at \<open>p\<close> of a non-empty array, by linear interpolation between the two
  nearest ranks of the sorted values.
\<close>

definition quantile :: "rat list \<Rightarrow> rat \<Rightarrow> rat" where
  "quantile x p =
     (let values = sort x;
          idx = p * of_nat (length values - 1);
          lo = nat \<lfloor>idx\<rfloor>;
          fraction = idx - of_int \<lfloor>idx\<rfloor>
      in if fraction = 0 then values ! lo
         else values ! lo + (values ! Suc lo - values ! lo) * fraction)"

text \<open>The edges of \<open>qcut\<close>: the quantiles at \<open>q + 1\<close> evenly spaced points.\<close>

definition quantile_edges :: "rat list \<Rightarrow> nat \<Rightarrow> rat list" where
  "quantile_edges x q = map (quantile x) (linspace01 q)"

text \<open>\<open>unique\<close> keeps the first occurrence of every value, in order of appearance.\<close>

fun unique :: "'a list \<Rightarrow> 'a list" where
  "unique [] = []"
| "unique (x # xs) = x # unique (filter (\<lambda>y. y \<noteq> x) xs)"

text \<open>
  \<open>bins.searchsorted(v, side='left')\<close> on a sorted array: the position of the first
  edge that is not below \<open>v\<close>.
\<close>

definition searchsorted_left :: "rat list \<Rightarrow> rat \<Rightarrow> nat" where
  "searchsorted_left bins v = length (takeWhile (\<lambda>b. b < v) bins)"

text \<open>\<open>IntervalIndex.from_breaks\<close>: one interval between each two consecutive breaks.\<close>

definition from_breaks :: "rat list \<Rightarrow> interval list" where
  "from_breaks breaks =
     map (\<lambda>(l, r). \<lparr>left = l, right = r\<rparr>) (zip breaks (tl breaks))"

text \<open>Python's \<open>round\<close> to an integer: halves go to the even neighbour.\<close>

definition py_round :: "rat \<Rightarrow> int" where
  "py_round x =
     (let f = \<lfloor>x\<rfloor>; d = x - of_int f
      in if d < 1 / 2 then f
         else if 1 / 2 < d then f + 1
         else if even f then f else f + 1)"

text \<open>\<open>np.around(x, decimals)\<close>: the nearest multiple of \<open>10 ^ -decimals\<close>, halves to even.\<close>

definition around :: "rat \<Rightarrow> nat \<Rightarrow> rat" where
  "around x decimals = of_int (py_round (x * 10 ^ decimals)) / 10 ^ decimals"

text \<open>
  \<open>-int(np.floor(np.log10(x))) - 1\<close> for \<open>0 < x < 1\<close>: the number of zeros between the
  decimal point and the first significant digit of \<open>x\<close>.
\<close>

function leading_zeros :: "rat \<Rightarrow> nat" where
  "leading_zeros x = (if 0 < x \<and> 10 * x < 1 then Suc (leading_zeros (10 * x)) else 0)"
  by pat_completeness auto
termination
proof (relation "measure (\<lambda>x. nat \<lceil>1 / x\<rceil>)")
  show "wf (measure (\<lambda>x. nat \<lceil>1 / x\<rceil>))" by simp
next
  fix x :: rat
  assume a: "0 < x \<and> 10 * x < 1"
  then have "1 / (10 * x) + 1 \<le> 1 / x" by (simp add: field_simps)
  moreover have "of_int \<lceil>1 / (10 * x)\<rceil> < 1 / (10 * x) + 1" by linarith
  moreover have "1 / x \<le> of_int \<lceil>1 / x\<rceil>" by linarith
  ultimately have "(of_int \<lceil>1 / (10 * x)\<rceil> :: rat) < of_int \<lceil>1 / x\<rceil>" by linarith
  then have "\<lceil>1 / (10 * x)\<rceil> < \<lceil>1 / x\<rceil>" by simp
  moreover have "0 < \<lceil>1 / x\<rceil>" using a by simp
  ultimately show "(10 * x, x) \<in> measure (\<lambda>x. nat \<lceil>1 / x\<rceil>)" by simp
qed

declare leading_zeros.simps [simp del]

text \<open>\<open>np.modf\<close>: the fractional and the whole part, both with the sign of \<open>x\<close>.\<close>

definition modf :: "rat \<Rightarrow> rat \<times> rat" where
  "modf x = (let whole = (if 0 \<le> x then of_int \<lfloor>x\<rfloor> else of_int \<lceil>x\<rceil>) in (x - whole, whole))"

text \<open>
  \<open>_round_frac\<close>: a number below \<open>1\<close> in size is rounded to \<open>precision\<close> significant
  digits, any other number to \<open>precision\<close> decimals.
\<close>

definition round_frac :: "rat \<Rightarrow> nat \<Rightarrow> rat" where
  "round_frac x precision =
     (if x = 0 then x
      else let (frac, whole) = modf x;
               digits = (if whole = 0 then leading_zeros \<bar>frac\<bar> + precision else precision)
           in around x digits)"

text \<open>
  \<open>_infer_precision\<close>: the first precision from the base precision on and below \<open>20\<close> at
  which the rounded edges are all different, the base precision when there is none.
\<close>

function infer_precision_from :: "nat \<Rightarrow> nat \<Rightarrow> rat list \<Rightarrow> nat" where
  "infer_precision_from base_precision precision bins =
     (if 20 \<le> precision then base_precision
      else if distinct (map (\<lambda>b. round_frac b precision) bins) then precision
      else infer_precision_from base_precision (Suc precision) bins)"
  by pat_completeness auto
termination
  by (relation "measure (\<lambda>(base_precision, precision, bins). 20 - precision)") auto

declare infer_precision_from.simps [simp del]

definition infer_precision :: "nat \<Rightarrow> rat list \<Rightarrow> nat" where
  "infer_precision base_precision bins = infer_precision_from base_precision base_precision bins"

text \<open>
  \<open>_format_labels\<close> with \<open>right=True\<close> and \<open>include_lowest=True\<close>: the categories are the
  intervals between the rounded edges, the first of them lowered by one unit of the
  precision. These are the intervals that the \<open>range\<close> column reports; the interval of an
  observation is decided by the edges themselves. In exact arithmetic two edges that agree
  in their first 19 significant digits get the same rounded value at every precision,
  whereas two different doubles differ within their first 17 digits.
\<close>

definition format_labels :: "rat list \<Rightarrow> interval list" where
  "format_labels bins =
     (let precision = infer_precision 3 bins;
          breaks = map (\<lambda>b. round_frac b precision) bins
      in from_breaks
           (case breaks of [] \<Rightarrow> [] | b # bs \<Rightarrow> (b - 1 / 10 ^ precision) # bs))"

text \<open>
  The cutting step of \<open>qcut\<close>, first part: with \<open>duplicates='drop'\<close> repeated edges
  are dropped, unless there are exactly two edges.
\<close>

definition drop_duplicates :: "rat list \<Rightarrow> rat list" where
  "drop_duplicates bins0 =
     (let unique_bins = unique bins0
      in if length unique_bins < length bins0 \<and> length bins0 \<noteq> 2
         then unique_bins else bins0)"

text \<open>
  Second part: an observation equal to the lowest edge goes to the first interval
  (\<open>include_lowest\<close>); an observation whose position is \<open>0\<close> or the number of edges
  has no interval and gets the missing value. The categories are the formatted labels.
\<close>

definition bins_to_cuts :: "rat list \<Rightarrow> rat list \<Rightarrow> categorical" where
  "bins_to_cuts x bins0 =
     (let bins = drop_duplicates bins0;
          ids = map (\<lambda>v. if v = hd bins then 1 else searchsorted_left bins v) x
      in \<lparr>categories = format_labels bins,
          codes = map (\<lambda>i. if i = length bins \<or> i = 0 then None else Some (i - 1)) ids\<rparr>)"

text \<open>
  \<open>qcut\<close> itself. On an empty array every quantile is NaN: with two edges the single
  NaN interval is refused as a category (\<open>ValueError\<close>), otherwise the edges collapse to
  one and the categorical is empty.
\<close>

definition qcut :: "rat list \<Rightarrow> nat \<Rightarrow> error + categorical" where
  "qcut x q =
     (if x = [] then
        (if q = 1 then Inl ValueError else Inr \<lparr>categories = [], codes = []\<rparr>)
      else Inr (bins_to_cuts x (quantile_edges x q)))"

subsection \<open>Column operations\<close>

text \<open>\<open>Series.cumsum()\<close>.\<close>

fun cumsum_from :: "int \<Rightarrow> int list \<Rightarrow> int list" where
  "cumsum_from acc [] = []"
| "cumsum_from acc (x # xs) = (acc + x) # cumsum_from (acc + x) xs"

definition cumsum :: "int list \<Rightarrow> int list" where
  "cumsum xs = cumsum_from 0 xs"

text \<open>\<open>Series.shift(fill_value=0)\<close>: every entry moves down one row.\<close>

definition shift :: "int list \<Rightarrow> int list" where
  "shift xs = take (length xs) (0 # xs)"

text \<open>
  \<open>groupby('range')['y_true'].agg(['size', 'sum'])\<close>: one row per category, in category
  order and also for a category without observations (the default \<open>observed=False\<close> of
  pandas up to 2.x; from pandas 3 on such a category has no row); observations with the
  missing value belong to no group.
\<close>

definition group_size :: "nat option list \<Rightarrow> nat \<Rightarrow> int" where
  "group_size cs c = int (length (filter (\<lambda>k. k = Some c) cs))"

definition group_sum :: "nat option list \<Rightarrow> int list \<Rightarrow> nat \<Rightarrow> int" where
  "group_sum cs ys c = sum_list (map snd (filter (\<lambda>(k, y). k = Some c) (zip cs ys)))"

text \<open>
  \<open>Series.apply(func, **kwds)\<close> hands the keyword arguments on to \<open>func\<close> at every
  call and makes no call on an empty column. A lambda of one parameter that is called
  with a keyword it does not have raises \<open>TypeError\<close>.
\<close>

definition call_lambda1 :: "('a \<Rightarrow> 'b) \<Rightarrow> 'a \<Rightarrow> string list \<Rightarrow> error + 'b" where
  "call_lambda1 f x kwds = (if kwds = [] then Inr (f x) else Inl TypeError)"

fun series_apply :: "('a \<Rightarrow> 'b) \<Rightarrow> string list \<Rightarrow> 'a list \<Rightarrow> error + 'b list" where
  "series_apply f kwds [] = Inr []"
| "series_apply f kwds (x # xs) =
     (case call_lambda1 f x kwds of
        Inl e \<Rightarrow> Inl e
      | Inr y \<Rightarrow> (case series_apply f kwds xs of Inl e \<Rightarrow> Inl e | Inr ys \<Rightarrow> Inr (y # ys)))"

subsection \<open>The table and \<open>fit\<close>\<close>

record table =
  col_bin :: "int list"
  col_range :: "interval list"
  col_size :: "int list"
  col_class0 :: "int list"
  col_class1 :: "int list"
  col_odds :: "pyfloat list"
  col_class0_rate :: "pyfloat list"
  col_class1_rate :: "pyfloat list"
  col_remainder_total :: "int list"
  col_remainder_class0 :: "int list"
  col_remainder_class1 :: "int list"
  col_cumulative_class0 :: "int list"
  col_cumulative_class1 :: "int list"
  col_abs_difference :: "pyfloat list"

record result =
  obs :: int
  class0 :: int
  class1 :: int
  ks :: pyfloat
  table :: table

text \<open>Lines 74 to 86 and 89 to 91: the columns of \<open>t\<close>, from the categorical of line 73.\<close>

definition build_table :: "categorical \<Rightarrow> int list \<Rightarrow> int \<Rightarrow> int \<Rightarrow> table" where
  "build_table cat y_true n0 n1 =
     (let k = length (categories cat);
          size_c = map (group_size (codes cat)) [0..<k];
          class1_c = map (group_sum (codes cat) y_true) [0..<k];
          class0_c = map2 (\<lambda>s c. s - c) size_c class1_c;
          cumulative0 = cumsum class0_c;
          cumulative1 = cumsum class1_c
      in \<lparr>col_bin = map int [1..<Suc k],
          col_range = categories cat,
          col_size = size_c,
          col_class0 = class0_c,
          col_class1 = class1_c,
          col_odds = map2 div_col class0_c class1_c,
          col_class0_rate = map2 div_col class0_c size_c,
          col_class1_rate = map2 div_col class1_c size_c,
          col_remainder_total = map (\<lambda>p. sum_list size_c - p) (cumsum (shift size_c)),
          col_remainder_class0 = map (\<lambda>p. sum_list class0_c - p) (cumsum (shift class0_c)),
          col_remainder_class1 = map (\<lambda>p. sum_list class1_c - p) (cumsum (shift class1_c)),
          col_cumulative_class0 = cumulative0,
          col_cumulative_class1 = cumulative1,
          col_abs_difference =
            map2 (\<lambda>a b. abs_float (sub_float (div_col a n0) (div_col b n1)))
              cumulative0 cumulative1\<rparr>)"

text \<open>
  \<open>fit\<close> for two numpy arrays. Line 72 builds a DataFrame from them, and for arrays the
  constructor raises \<open>ValueError\<close> when their lengths differ. Line 88 calls \<open>apply\<close> with the
  keyword \<open>axis\<close> and drops what it returns, so that the table is the same with and without
  \<open>round_range\<close> whenever the call returns.
\<close>

definition fit :: "rat list \<Rightarrow> int list \<Rightarrow> nat \<Rightarrow> bool \<Rightarrow> error + result" where
  "fit y_proba y_true bins round_range =
     (let n0 = int (length y_proba) - sum_list y_true;
          n1 = sum_list y_true
      in if length y_proba \<noteq> length y_true then Inl ValueError
         else case qcut y_proba bins of
           Inl e \<Rightarrow> Inl e
         | Inr cat \<Rightarrow>
             (let t = build_table cat y_true n0 n1
              in case (if round_range
                       then series_apply
                              (\<lambda>x. \<lparr>left = of_int (py_round (left x)),
                                    right = of_int (py_round (right x))\<rparr>)
                              [''axis''] (col_range t)
                       else Inr [])
                 of Inl e \<Rightarrow> Inl e
                  | Inr _ \<Rightarrow>
                      Inr \<lparr>obs = n0 + n1, class0 = n0, class1 = n1,
                           ks = series_max (col_abs_difference t), table = t\<rparr>))"

text \<open>
  \<open>fit\<close> for two pandas Series with the default index \<open>0, 1, ...\<close>. The DataFrame
  constructor of line 72 raises nothing for them: it aligns the two Series on the index,
  so that the frame has as many rows as the longer one and the other column is filled with
  NaN. The result of \<open>qcut\<close> is a Series over the index of \<open>y_proba\<close>, and the assignment of
  line 73 leaves the missing value in the rows beyond it. In line 74 \<open>size\<close> counts the rows
  of a group whatever their label, and \<open>sum\<close> skips a NaN label, which is the sum with \<open>0\<close> in
  its place. Everything else is as for arrays.
\<close>

definition fit_series :: "rat list \<Rightarrow> int list \<Rightarrow> nat \<Rightarrow> bool \<Rightarrow> error + result" where
  "fit_series y_proba y_true bins round_range =
     (let n0 = int (length y_proba) - sum_list y_true;
          n1 = sum_list y_true;
          rows = max (length y_proba) (length y_true)
      in case qcut y_proba bins of
           Inl e \<Rightarrow> Inl e
         | Inr cat \<Rightarrow>
             (let t = build_table
                        \<lparr>categories = categories cat,
                         codes = codes cat @ replicate (rows - length y_proba) None\<rparr>
                        (y_true @ replicate (rows - length y_true) 0) n0 n1
              in case (if round_range
                       then series_apply
                              (\<lambda>x. \<lparr>left = of_int (py_round (left x)),
                                    right = of_int (py_round (right x))\<rparr>)
                              [''axis''] (col_range t)
                       else Inr [])
                 of Inl e \<Rightarrow> Inl e
                  | Inr _ \<Rightarrow>
                      Inr \<lparr>obs = n0 + n1, class0 = n0, class1 = n1,
                           ks = series_max (col_abs_difference t), table = t\<rparr>))"

section \<open>Auxiliary facts\<close>

subsection \<open>Running sums and shifted columns\<close>

text \<open>
  Facts about \<open>cumsum\<close> and \<open>shift\<close>: an entry of a running sum is the sum of a prefix.
\<close>

lemma length_cumsum_from: "length (cumsum_from acc xs) = length xs"
  by (induction xs arbitrary: acc) auto

lemma cumsum_from_nth:
  "i < length xs \<Longrightarrow> cumsum_from acc xs ! i = acc + sum_list (take (Suc i) xs)"
proof (induction xs arbitrary: acc i)
  case Nil
  then show ?case by simp
next
  case (Cons x xs)
  show ?case
  proof (cases i)
    case 0
    then show ?thesis by simp
  next
    case (Suc j)
    with Cons.prems have "j < length xs" by simp
    from Cons.IH[OF this, of "acc + x"] Suc show ?thesis by simp
  qed
qed

lemma length_cumsum [simp]: "length (cumsum xs) = length xs"
  by (simp add: cumsum_def length_cumsum_from)

lemma cumsum_nth: "i < length xs \<Longrightarrow> cumsum xs ! i = sum_list (take (Suc i) xs)"
  by (simp add: cumsum_def cumsum_from_nth)

lemma length_shift [simp]: "length (shift xs) = length xs"
  by (simp add: shift_def)

lemma take_Suc_shift: "i < length xs \<Longrightarrow> sum_list (take (Suc i) (shift xs)) = sum_list (take i xs)"
  by (simp add: shift_def min_def)

lemma cumsum_shift_nth:
  "i < length xs \<Longrightarrow> cumsum (shift xs) ! i = sum_list (take i xs)"
  by (simp add: cumsum_nth take_Suc_shift)

lemma last_cumsum: "xs \<noteq> [] \<Longrightarrow> last (cumsum xs) = sum_list xs"
proof -
  assume ne: "xs \<noteq> []"
  then have "cumsum xs \<noteq> []" by (metis length_cumsum length_0_conv)
  then have "last (cumsum xs) = cumsum xs ! (length xs - 1)"
    by (simp add: last_conv_nth)
  also have "\<dots> = sum_list (take (Suc (length xs - 1)) xs)"
    using ne by (intro cumsum_nth) simp
  also have "\<dots> = sum_list xs" using ne by simp
  finally show ?thesis .
qed

lemma sum_list_take_mono:
  fixes xs :: "int list"
  assumes "\<forall>x\<in>set xs. 0 \<le> x" "i \<le> j"
  shows "sum_list (take i xs) \<le> sum_list (take j xs)"
proof -
  have "take j xs = take i xs @ take (j - i) (drop i xs)"
    using assms(2) by (metis le_add_diff_inverse take_add)
  moreover have "0 \<le> sum_list (take (j - i) (drop i xs))"
    using assms(1) by (intro sum_list_nonneg) (auto dest!: in_set_takeD in_set_dropD)
  ultimately show ?thesis by simp
qed

lemma sum_list_take_le:
  fixes xs :: "int list"
  assumes "\<forall>x\<in>set xs. 0 \<le> x"
  shows "sum_list (take i xs) \<le> sum_list xs"
  using sum_list_take_mono[OF assms, of i "max i (length xs)"] by simp

lemma sum_list_take_nonneg:
  fixes xs :: "int list"
  assumes "\<forall>x\<in>set xs. 0 \<le> x"
  shows "0 \<le> sum_list (take i xs)"
  using assms by (intro sum_list_nonneg) (auto dest!: in_set_takeD)

lemma sorted_cumsum:
  assumes "\<forall>x\<in>set xs. 0 \<le> x"
  shows "sorted (cumsum xs)"
  unfolding sorted_iff_nth_mono
proof (intro allI impI)
  fix i j assume "i \<le> j" "j < length (cumsum xs)"
  then have "i < length xs" "j < length xs" by simp_all
  then show "cumsum xs ! i \<le> cumsum xs ! j"
    using sum_list_take_mono[OF assms, of "Suc i" "Suc j"] \<open>i \<le> j\<close>
    by (simp add: cumsum_nth)
qed

lemma sum_list_map2_diff:
  fixes xs ys :: "int list"
  shows "length xs = length ys \<Longrightarrow>
    sum_list (map2 (\<lambda>s c. s - c) xs ys) = sum_list xs - sum_list ys"
  by (induction xs ys rule: list_induct2) auto

lemma take_map2: "take i (map2 f xs ys) = map2 f (take i xs) (take i ys)"
  by (simp add: take_map take_zip)

subsection \<open>Aggregation by category\<close>

text \<open>
  When every observation has the code of a category, the group sizes and group sums
  add up to the whole.
\<close>

lemma sum_indicator_upt:
  "(\<Sum>c\<leftarrow>[0..<k]. if j = c then (a::int) else 0) = (if j < k then a else 0)"
  by (induction k) auto

lemma sum_group_size:
  assumes "\<forall>c\<in>set cs. \<exists>j<k. c = Some j"
  shows "sum_list (map (group_size cs) [0..<k]) = int (length cs)"
  using assms
proof (induction cs)
  case Nil
  then show ?case by (simp add: group_size_def)
next
  case (Cons c cs)
  then obtain j where j: "j < k" "c = Some j" by auto
  have "group_size (c # cs) = (\<lambda>i. (if j = i then 1 else 0) + group_size cs i)"
    by (auto simp: group_size_def j fun_eq_iff)
  then have "sum_list (map (group_size (c # cs)) [0..<k])
      = (\<Sum>i\<leftarrow>[0..<k]. if j = i then 1 else 0) + sum_list (map (group_size cs) [0..<k])"
    by (simp add: sum_list_addf)
  with Cons j show ?case by (simp add: sum_indicator_upt)
qed

lemma sum_group_sum:
  assumes "length cs = length ys" "\<forall>c\<in>set cs. \<exists>j<k. c = Some j"
  shows "sum_list (map (group_sum cs ys) [0..<k]) = sum_list ys"
  using assms
proof (induction cs ys rule: list_induct2)
  case Nil
  then show ?case by (simp add: group_sum_def)
next
  case (Cons c cs y ys)
  then obtain j where j: "j < k" "c = Some j" by auto
  have "group_sum (c # cs) (y # ys) = (\<lambda>i. (if j = i then y else 0) + group_sum cs ys i)"
    by (auto simp: group_sum_def j fun_eq_iff)
  then have "sum_list (map (group_sum (c # cs) (y # ys)) [0..<k])
      = (\<Sum>i\<leftarrow>[0..<k]. if j = i then y else 0) + sum_list (map (group_sum cs ys) [0..<k])"
    by (simp add: sum_list_addf)
  with Cons j show ?case by (simp add: sum_indicator_upt)
qed

lemma group_sum_bounds:
  assumes "length cs = length ys" "set ys \<subseteq> {0, 1}"
  shows "0 \<le> group_sum cs ys c \<and> group_sum cs ys c \<le> group_size cs c"
  using assms
  by (induction cs ys rule: list_induct2) (auto simp: group_sum_def group_size_def)




subsection \<open>Quantile edges\<close>

text \<open>
  The first edge is the least probability and the last edge the greatest; duplicates
  are dropped without changing the set of edges or the first edge.
\<close>

lemma length_linspace01 [simp]: "length (linspace01 q) = Suc q"
  by (simp add: linspace01_def)

lemma hd_linspace01: "hd (linspace01 q) = 0"
  by (simp add: linspace01_def hd_map upt_rec del: upt_Suc)

lemma last_linspace01: "0 < q \<Longrightarrow> last (linspace01 q) = 1"
  by (simp add: linspace01_def)


lemma quantile_0: "quantile x 0 = sort x ! 0"
  by (simp add: quantile_def)

lemma quantile_1: "quantile x 1 = sort x ! (length x - 1)"
  by (simp add: quantile_def)

lemma sort_first_le:
  assumes "v \<in> set x"
  shows "sort x ! 0 \<le> v"
proof -
  from assms have "v \<in> set (sort x)" by simp
  then obtain i where i: "i < length (sort x)" "sort x ! i = v"
    unfolding in_set_conv_nth by blast
  have "sort x ! 0 \<le> sort x ! i"
    using i(1) by (intro sorted_nth_mono) simp_all
  with i show ?thesis by simp
qed

lemma sort_last_ge:
  assumes "v \<in> set x"
  shows "v \<le> sort x ! (length x - 1)"
proof -
  from assms have "v \<in> set (sort x)" by simp
  then obtain i where i: "i < length (sort x)" "sort x ! i = v"
    unfolding in_set_conv_nth by blast
  have "sort x ! i \<le> sort x ! (length x - 1)"
    using i(1) by (intro sorted_nth_mono) simp_all
  with i show ?thesis by simp
qed

lemma sort_first_less_last:
  assumes "a \<in> set x" "b \<in> set x" "a \<noteq> b"
  shows "sort x ! 0 < sort x ! (length x - 1)"
proof -
  have "sort x ! 0 \<le> min a b"
    using sort_first_le[OF assms(1)] sort_first_le[OF assms(2)] by (simp add: min_def)
  moreover have "max a b \<le> sort x ! (length x - 1)"
    using sort_last_ge[OF assms(1)] sort_last_ge[OF assms(2)] by (simp add: max_def)
  moreover have "min a b < max a b" using assms(3) by (auto simp: min_def max_def)
  ultimately show ?thesis by (meson le_less_trans less_le_trans)
qed

lemma set_unique [simp]: "set (unique xs) = set xs"
  by (induction xs rule: unique.induct) auto

lemma hd_unique [simp]: "hd (unique xs) = hd xs"
  by (cases xs) simp_all

lemma unique_Nil_iff [simp]: "unique xs = [] \<longleftrightarrow> xs = []"
  by (cases xs) simp_all



lemma set_drop_duplicates [simp]: "set (drop_duplicates bs) = set bs"
  by (simp add: drop_duplicates_def Let_def)

lemma hd_drop_duplicates [simp]: "hd (drop_duplicates bs) = hd bs"
  by (simp add: drop_duplicates_def Let_def)


lemma length_from_breaks [simp]: "length (from_breaks bs) = length bs - 1"
  by (simp add: from_breaks_def)

lemma length_format_labels [simp]: "length (format_labels bs) = length bs - 1"
  by (cases bs) (simp_all add: format_labels_def Let_def)

lemma two_elements_length:
  assumes "a \<in> set bs" "b \<in> set bs" "a \<noteq> b"
  shows "2 \<le> length bs"
proof (cases bs)
  case Nil
  with assms show ?thesis by simp
next
  case (Cons c cs)
  with assms have "cs \<noteq> []" by auto
  with Cons show ?thesis by (cases cs) simp_all
qed

lemma takeWhile_stops:
  assumes "b \<in> set bs" "\<not> P b"
  shows "length (takeWhile P bs) < length bs"
proof -
  have "takeWhile P bs \<noteq> bs"
    using assms by (metis set_takeWhileD)
  moreover have "length (takeWhile P bs) \<le> length bs" by (rule length_takeWhile_le)
  ultimately show ?thesis
    by (metis takeWhile_eq_take le_neq_implies_less take_all order_refl)
qed

lemma takeWhile_starts:
  assumes "bs \<noteq> []" "P (hd bs)"
  shows "0 < length (takeWhile P bs)"
  using assms by (cases bs) simp_all

lemma searchsorted_left_range:
  assumes "bs \<noteq> []" "hd bs < v" "b \<in> set bs" "v \<le> b"
  shows "0 < searchsorted_left bs v \<and> searchsorted_left bs v < length bs"
  unfolding searchsorted_left_def
  using takeWhile_starts[of bs "\<lambda>b. b < v"] takeWhile_stops[of b bs "\<lambda>b. b < v"] assms
  by simp

lemma length_quantile_edges [simp]: "length (quantile_edges x q) = Suc q"
  by (simp add: quantile_edges_def)

lemma hd_quantile_edges: "hd (quantile_edges x q) = sort x ! 0"
proof -
  have "linspace01 q \<noteq> []" by (metis length_linspace01 length_0_conv nat.distinct(1))
  then show ?thesis
    by (simp add: quantile_edges_def hd_map hd_linspace01 quantile_0)
qed

lemma last_quantile_edges:
  "0 < q \<Longrightarrow> last (quantile_edges x q) = sort x ! (length x - 1)"
proof -
  assume q: "0 < q"
  have "linspace01 q \<noteq> []" by (metis length_linspace01 length_0_conv nat.distinct(1))
  then show ?thesis
    using q by (simp add: quantile_edges_def last_map last_linspace01 quantile_1)
qed

lemma last_in_quantile_edges:
  "0 < q \<Longrightarrow> sort x ! (length x - 1) \<in> set (quantile_edges x q)"
  by (metis last_quantile_edges last_in_set length_quantile_edges length_0_conv nat.distinct(1))

lemma length_edges_ge2:
  assumes "x \<noteq> []" "q = 1 \<or> (0 < q \<and> (\<exists>a\<in>set x. \<exists>b\<in>set x. a \<noteq> b))"
  shows "2 \<le> length (drop_duplicates (quantile_edges x q))"
  using assms(2)
proof
  assume "q = 1"
  then show ?thesis by (simp add: drop_duplicates_def Let_def)
next
  assume h: "0 < q \<and> (\<exists>a\<in>set x. \<exists>b\<in>set x. a \<noteq> b)"
  then obtain a b where ab: "a \<in> set x" "b \<in> set x" "a \<noteq> b" by blast
  let ?bs = "drop_duplicates (quantile_edges x q)"
  have "sort x ! 0 < sort x ! (length x - 1)" by (rule sort_first_less_last[OF ab])
  moreover have "sort x ! (length x - 1) \<in> set ?bs"
    using h last_in_quantile_edges[of q x] by simp
  moreover have "sort x ! 0 \<in> set ?bs"
    by (metis hd_quantile_edges hd_in_set length_quantile_edges length_0_conv
        nat.distinct(1) set_drop_duplicates)
  ultimately show ?thesis
    by (metis two_elements_length less_irrefl)
qed

lemma codes_in_range:
  assumes ne: "x \<noteq> []"
    and q: "q = 1 \<or> (0 < q \<and> (\<exists>a\<in>set x. \<exists>b\<in>set x. a \<noteq> b))"
    and c: "c \<in> set (codes (bins_to_cuts x (quantile_edges x q)))"
  shows "\<exists>j<length (categories (bins_to_cuts x (quantile_edges x q))). c = Some j"
proof -
  let ?bs = "drop_duplicates (quantile_edges x q)"
  have q0: "0 < q" using q by auto
  have len: "2 \<le> length ?bs" by (rule length_edges_ge2[OF ne q])
  then have bne: "?bs \<noteq> []" by auto
  have hd: "hd ?bs = sort x ! 0" by (simp add: hd_quantile_edges)
  have top: "sort x ! (length x - 1) \<in> set ?bs"
    using q0 last_in_quantile_edges[of q x] by simp
  from c obtain v where v: "v \<in> set x"
    and cv: "c = (let i = (if v = hd ?bs then 1 else searchsorted_left ?bs v)
                  in if i = length ?bs \<or> i = 0 then None else Some (i - 1))"
    by (auto simp: bins_to_cuts_def Let_def)
  show ?thesis
  proof (cases "v = hd ?bs")
    case True
    with cv len show ?thesis by (auto simp: bins_to_cuts_def Let_def)
  next
    case False
    have "sort x ! 0 \<le> v" by (rule sort_first_le[OF v])
    with False hd have lt: "hd ?bs < v" by simp
    have "v \<le> sort x ! (length x - 1)" by (rule sort_last_ge[OF v])
    from searchsorted_left_range[OF bne lt top this]
    have r: "0 < searchsorted_left ?bs v" "searchsorted_left ?bs v < length ?bs" by simp_all
    with cv False show ?thesis by (auto simp: bins_to_cuts_def Let_def)
  qed
qed

lemma length_codes [simp]: "length (codes (bins_to_cuts x bs)) = length x"
  by (simp add: bins_to_cuts_def Let_def)


subsection \<open>Monotonicity of the quantiles\<close>













subsection \<open>The formatted labels\<close>








lemma around_zero [simp]: "around 0 d = 0"
  by (simp add: around_def py_round_def)


lemma round_frac_zero [simp]: "round_frac 0 p = 0"
  by (simp add: round_frac_def)
























lemma format_labels_examples:
  "format_labels [1 / 10, 12349 / 100000, 9 / 10]
     = [\<lparr>left = 99 / 1000, right = 123 / 1000\<rparr>, \<lparr>left = 123 / 1000, right = 9 / 10\<rparr>]"
  "format_labels [1 / 2, 1 / 2] = [\<lparr>left = 499 / 1000, right = 1 / 2\<rparr>]"
  by code_simp+

subsection \<open>The columns of the table\<close>

text \<open>
  Each column of \<open>build_table\<close> in terms of the columns it is computed from, and what
  \<open>fit\<close> returns.
\<close>

lemma col_size_build:
  "col_size (build_table cat ys n0 n1) = map (group_size (codes cat)) [0..<length (categories cat)]"
  by (simp add: build_table_def Let_def)

lemma col_class1_build:
  "col_class1 (build_table cat ys n0 n1) = map (group_sum (codes cat) ys) [0..<length (categories cat)]"
  by (simp add: build_table_def Let_def)

lemma col_class0_build:
  "col_class0 (build_table cat ys n0 n1) =
     map2 (\<lambda>s c. s - c) (col_size (build_table cat ys n0 n1)) (col_class1 (build_table cat ys n0 n1))"
  by (simp add: build_table_def Let_def)

lemma col_bin_build:
  "col_bin (build_table cat ys n0 n1) = map int [1..<Suc (length (categories cat))]"
  by (simp add: build_table_def Let_def)

lemma col_range_build:
  "col_range (build_table cat ys n0 n1) = categories cat"
  by (simp add: build_table_def Let_def)

lemma col_cumulative_class0_build:
  "col_cumulative_class0 (build_table cat ys n0 n1) = cumsum (col_class0 (build_table cat ys n0 n1))"
  by (simp add: build_table_def Let_def)

lemma col_cumulative_class1_build:
  "col_cumulative_class1 (build_table cat ys n0 n1) = cumsum (col_class1 (build_table cat ys n0 n1))"
  by (simp add: build_table_def Let_def)

lemma col_remainder_total_build:
  "col_remainder_total (build_table cat ys n0 n1) =
     map (\<lambda>p. sum_list (col_size (build_table cat ys n0 n1)) - p)
       (cumsum (shift (col_size (build_table cat ys n0 n1))))"
  by (simp add: build_table_def Let_def)

lemma col_remainder_class0_build:
  "col_remainder_class0 (build_table cat ys n0 n1) =
     map (\<lambda>p. sum_list (col_class0 (build_table cat ys n0 n1)) - p)
       (cumsum (shift (col_class0 (build_table cat ys n0 n1))))"
  by (simp add: build_table_def Let_def)

lemma col_remainder_class1_build:
  "col_remainder_class1 (build_table cat ys n0 n1) =
     map (\<lambda>p. sum_list (col_class1 (build_table cat ys n0 n1)) - p)
       (cumsum (shift (col_class1 (build_table cat ys n0 n1))))"
  by (simp add: build_table_def Let_def)

lemma col_abs_difference_build:
  "col_abs_difference (build_table cat ys n0 n1) =
     map2 (\<lambda>a b. abs_float (sub_float (div_col a n0) (div_col b n1)))
       (col_cumulative_class0 (build_table cat ys n0 n1))
       (col_cumulative_class1 (build_table cat ys n0 n1))"
  by (simp add: build_table_def Let_def)

lemma length_col_size [simp]:
  "length (col_size (build_table cat ys n0 n1)) = length (categories cat)"
  by (simp add: col_size_build)

lemma length_col_class1 [simp]:
  "length (col_class1 (build_table cat ys n0 n1)) = length (categories cat)"
  by (simp add: col_class1_build)

lemma length_col_class0 [simp]:
  "length (col_class0 (build_table cat ys n0 n1)) = length (categories cat)"
  by (simp add: col_class0_build)

lemma length_col_bin [simp]:
  "length (col_bin (build_table cat ys n0 n1)) = length (categories cat)"
  by (simp add: col_bin_build del: upt_Suc)

lemma fit_InrD:
  assumes "fit y_proba y_true bins round_range = Inr r"
  shows "\<exists>cat. qcut y_proba bins = Inr cat \<and> length y_proba = length y_true
     \<and> table r = build_table cat y_true (int (length y_proba) - sum_list y_true) (sum_list y_true)
     \<and> obs r = int (length y_proba)
     \<and> class0 r = int (length y_proba) - sum_list y_true
     \<and> class1 r = sum_list y_true
     \<and> ks r = series_max (col_abs_difference (table r))"
  using assms unfolding fit_def Let_def
  by (auto split: if_splits sum.splits)

lemma fit_False:
  assumes "length y_proba = length y_true" "y_proba \<noteq> []"
  shows "fit y_proba y_true bins False =
    Inr \<lparr>obs = int (length y_proba),
         class0 = int (length y_proba) - sum_list y_true,
         class1 = sum_list y_true,
         ks = series_max (col_abs_difference
                (build_table (bins_to_cuts y_proba (quantile_edges y_proba bins)) y_true
                   (int (length y_proba) - sum_list y_true) (sum_list y_true))),
         table = build_table (bins_to_cuts y_proba (quantile_edges y_proba bins)) y_true
                   (int (length y_proba) - sum_list y_true) (sum_list y_true)\<rparr>"
  using assms by (simp add: fit_def qcut_def Let_def)

lemma remainder_identity:
  fixes cat ys n0 n1 defines "t \<equiv> build_table cat ys n0 n1"
  assumes i: "i < length (categories cat)"
  shows "col_remainder_class0 t ! i + col_remainder_class1 t ! i = col_remainder_total t ! i"
proof -
  let ?s = "col_size t" and ?c1 = "col_class1 t" and ?c0 = "col_class0 t"
  have len: "length ?s = length ?c1" by (simp add: t_def)
  have c0: "?c0 = map2 (\<lambda>s c. s - c) ?s ?c1" unfolding t_def by (rule col_class0_build)
  have tot: "sum_list ?c0 = sum_list ?s - sum_list ?c1"
    unfolding c0 by (rule sum_list_map2_diff[OF len])
  have "take i ?c0 = map2 (\<lambda>s c. s - c) (take i ?s) (take i ?c1)"
    unfolding c0 by (rule take_map2)
  then have pre: "sum_list (take i ?c0) = sum_list (take i ?s) - sum_list (take i ?c1)"
    using len by (simp add: sum_list_map2_diff)
  have r0: "col_remainder_class0 t ! i = sum_list ?c0 - sum_list (take i ?c0)"
    using i unfolding t_def by (simp add: col_remainder_class0_build cumsum_shift_nth)
  have r1: "col_remainder_class1 t ! i = sum_list ?c1 - sum_list (take i ?c1)"
    using i unfolding t_def by (simp add: col_remainder_class1_build cumsum_shift_nth)
  have rt: "col_remainder_total t ! i = sum_list ?s - sum_list (take i ?s)"
    using i unfolding t_def by (simp add: col_remainder_total_build cumsum_shift_nth)
  show ?thesis unfolding r0 r1 rt using tot pre by simp
qed

lemma series_apply_kwds:
  "kwds \<noteq> [] \<Longrightarrow> xs \<noteq> [] \<Longrightarrow> series_apply f kwds xs = Inl TypeError"
  by (cases xs) (simp_all add: call_lambda1_def)

lemma fit_round_range_TypeError:
  assumes "length y_proba = length y_true" and "qcut y_proba bins = Inr cat"
    and "categories cat \<noteq> []"
  shows "fit y_proba y_true bins True = Inl TypeError"
  using assms by (simp add: fit_def Let_def col_range_build series_apply_kwds)

lemma length_categories_cuts:
  "length (categories (bins_to_cuts x bs)) = length (drop_duplicates bs) - 1"
  by (simp add: bins_to_cuts_def Let_def)

lemma categories_nonempty:
  assumes "x \<noteq> []" "q = 1 \<or> (0 < q \<and> (\<exists>a\<in>set x. \<exists>b\<in>set x. a \<noteq> b))"
  shows "0 < length (categories (bins_to_cuts x (quantile_edges x q)))"
  using length_edges_ge2[OF assms] by (simp add: length_categories_cuts)

lemma categories_single:
  "length (categories (bins_to_cuts x (quantile_edges x 1))) = 1"
  by (simp add: length_categories_cuts drop_duplicates_def Let_def)

lemma singleton_sum: "length xs = 1 \<Longrightarrow> xs = [sum_list xs]" for xs :: "int list"
  by (cases xs) simp_all

lemma cumsum_single [simp]: "cumsum [a] = [a]"
  by (simp add: cumsum_def)



lemma label_counts_pos:
  assumes "set ys \<subseteq> {0, 1 :: int}"
  shows "1 \<in> set ys \<Longrightarrow> 0 < sum_list ys"
    and "0 \<in> set ys \<Longrightarrow> sum_list ys < int (length ys)"
proof -
  have b: "0 \<le> sum_list zs \<and> sum_list zs \<le> int (length zs)"
    if "set zs \<subseteq> {0, 1 :: int}" for zs
    using that by (induction zs) auto
  show "1 \<in> set ys \<Longrightarrow> 0 < sum_list ys"
    using assms
  proof (induction ys)
    case Nil
    then show ?case by simp
  next
    case (Cons y ys)
    then have "set ys \<subseteq> {0, 1}" by simp
    from b[OF this] Cons show ?case by auto
  qed
  show "0 \<in> set ys \<Longrightarrow> sum_list ys < int (length ys)"
    using assms
  proof (induction ys)
    case Nil
    then show ?case by simp
  next
    case (Cons y ys)
    then have "set ys \<subseteq> {0, 1}" by simp
    from b[OF this] Cons show ?case by auto
  qed
qed

lemma sub_float_NaN_right [simp]: "sub_float a NaN = NaN"
  by (cases a) simp_all


lemma foldl_max_Fin:
  assumes "\<forall>d\<in>set ys. \<exists>v. d = Fin v"
  shows "\<exists>m. foldl max_float (Fin a) ys = Fin m \<and> (m = a \<or> Fin m \<in> set ys) \<and> a \<le> m
           \<and> (\<forall>v. Fin v \<in> set ys \<longrightarrow> v \<le> m)"
  using assms
proof (induction ys arbitrary: a)
  case Nil
  then show ?case by simp
next
  case (Cons y ys)
  then obtain b where b: "y = Fin b" by auto
  from Cons.prems have "\<forall>d\<in>set ys. \<exists>v. d = Fin v" by simp
  from Cons.IH[OF this, of "max a b"] obtain m where
    m: "foldl max_float (Fin (max a b)) ys = Fin m" "m = max a b \<or> Fin m \<in> set ys"
       "max a b \<le> m" "\<forall>v. Fin v \<in> set ys \<longrightarrow> v \<le> m"
    by blast
  have "foldl max_float (Fin a) (y # ys) = Fin m" using m(1) b by simp
  moreover have "m = a \<or> Fin m \<in> set (y # ys)" using m(2) b by (auto simp: max_def split: if_splits)
  moreover have "a \<le> m" using m(3) by simp
  moreover have "\<forall>v. Fin v \<in> set (y # ys) \<longrightarrow> v \<le> m" using m(3,4) b by auto
  ultimately show ?case by blast
qed

lemma series_max_Fin:
  assumes "xs \<noteq> []" "\<forall>d\<in>set xs. \<exists>v. d = Fin v"
  shows "\<exists>m. series_max xs = Fin m \<and> Fin m \<in> set xs \<and> (\<forall>v. Fin v \<in> set xs \<longrightarrow> v \<le> m)"
proof -
  have f: "filter (\<lambda>x. x \<noteq> NaN) xs = xs"
    using assms(2) by (auto simp: filter_id_conv)
  from assms obtain y ys where xs: "xs = y # ys" by (cases xs) auto
  with assms(2) obtain a where a: "y = Fin a" by auto
  from assms(2) xs have "\<forall>d\<in>set ys. \<exists>v. d = Fin v" by simp
  from foldl_max_Fin[OF this, of a] obtain m where
    m: "foldl max_float (Fin a) ys = Fin m" "m = a \<or> Fin m \<in> set ys" "a \<le> m"
       "\<forall>v. Fin v \<in> set ys \<longrightarrow> v \<le> m"
    by blast
  have "series_max xs = Fin m"
    unfolding series_max_def f using xs a m(1) by simp
  moreover have "Fin m \<in> set xs" using m(2) xs a by auto
  moreover have "\<forall>v. Fin v \<in> set xs \<longrightarrow> v \<le> m" using m(3,4) xs a by auto
  ultimately show ?thesis by blast
qed

lemma abs_difference_entry:
  assumes "0 < n0" "0 < n1" "0 \<le> a" "a \<le> n0" "0 \<le> b" "b \<le> n1"
  shows "\<exists>v. abs_float (sub_float (div_col a n0) (div_col b n1)) = Fin v \<and> 0 \<le> v \<and> v \<le> 1"
proof -
  let ?u = "(of_int a / of_int n0 :: rat)" and ?w = "(of_int b / of_int n1 :: rat)"
  have u: "0 \<le> ?u \<and> ?u \<le> 1" using assms by (simp add: divide_le_eq_1)
  have w: "0 \<le> ?w \<and> ?w \<le> 1" using assms by (simp add: divide_le_eq_1)
  have "abs_float (sub_float (div_col a n0) (div_col b n1)) = Fin \<bar>?u - ?w\<bar>"
    using assms by (simp add: div_col_def)
  moreover have "\<bar>?u - ?w\<bar> \<le> 1" using u w by linarith
  ultimately show ?thesis by simp
qed

lemma table_sums:
  fixes y_proba y_true bins
  defines "cat \<equiv> bins_to_cuts y_proba (quantile_edges y_proba bins)"
  defines "t \<equiv> build_table cat y_true (int (length y_proba) - sum_list y_true) (sum_list y_true)"
  assumes len: "length y_proba = length y_true" and ne: "y_proba \<noteq> []"
    and q: "bins = 1 \<or> (0 < bins \<and> (\<exists>a\<in>set y_proba. \<exists>b\<in>set y_proba. a \<noteq> b))"
  shows "sum_list (col_size t) = int (length y_proba)"
    and "sum_list (col_class1 t) = sum_list y_true"
    and "sum_list (col_class0 t) = int (length y_proba) - sum_list y_true"
proof -
  have cov: "\<forall>c\<in>set (codes cat). \<exists>j<length (categories cat). c = Some j"
    unfolding cat_def using codes_in_range[OF ne q] by blast
  have lc: "length (codes cat) = length y_true" by (simp add: cat_def len)
  show s: "sum_list (col_size t) = int (length y_proba)"
    unfolding t_def col_size_build using sum_group_size[OF cov] lc len by simp
  show c1: "sum_list (col_class1 t) = sum_list y_true"
    unfolding t_def col_class1_build by (rule sum_group_sum[OF lc cov])
  have "sum_list (col_class0 t) = sum_list (col_size t) - sum_list (col_class1 t)"
    unfolding t_def col_class0_build by (rule sum_list_map2_diff) simp
  with s c1 show "sum_list (col_class0 t) = int (length y_proba) - sum_list y_true" by simp
qed

lemma class_columns_nonneg:
  fixes cat y_true n0 n1
  defines "t \<equiv> build_table cat y_true n0 n1"
  assumes lc: "length (codes cat) = length y_true" and lab: "set y_true \<subseteq> {0, 1}"
  shows "\<forall>v\<in>set (col_class0 t). 0 \<le> v" and "\<forall>v\<in>set (col_class1 t). 0 \<le> v"
proof -
  have b: "\<And>c. 0 \<le> group_sum (codes cat) y_true c
      \<and> group_sum (codes cat) y_true c \<le> group_size (codes cat) c"
    by (rule group_sum_bounds[OF lc lab])
  show "\<forall>v\<in>set (col_class1 t). 0 \<le> v"
    unfolding t_def col_class1_build using b by auto
  show "\<forall>v\<in>set (col_class0 t). 0 \<le> v"
    unfolding t_def col_class0_build col_size_build col_class1_build
    using b by (auto simp: zip_map_map zip_same_conv_map)
qed



lemma categorical_collapse:
  "\<lparr>categories = categories c, codes = codes c\<rparr> = c" for c :: categorical
  by (cases c) simp

lemma fit_series_equal_lengths:
  assumes "length y_proba = length y_true"
  shows "fit_series y_proba y_true bins round_range = fit y_proba y_true bins round_range"
proof -
  have t: "build_table
        \<lparr>categories = categories c,
         codes = codes c
           @ replicate (max (length y_proba) (length y_true) - length y_proba) None\<rparr>
        (y_true @ replicate (max (length y_proba) (length y_true) - length y_true) 0) n0 n1
      = build_table c y_true n0 n1" for n0 n1 and c :: categorical
    using assms by (simp add: categorical_collapse)
  show ?thesis
    unfolding fit_series_def fit_def Let_def t using assms by simp
qed

lemma fit_series_returns:
  assumes "y_proba \<noteq> []"
  shows "\<exists>r. fit_series y_proba y_true bins False = Inr r \<and> obs r = int (length y_proba)"
  using assms by (simp add: fit_series_def qcut_def Let_def)

lemma cumulative_bounds:
  fixes y_proba y_true bins
  defines "cat \<equiv> bins_to_cuts y_proba (quantile_edges y_proba bins)"
  defines "t \<equiv> build_table cat y_true (int (length y_proba) - sum_list y_true) (sum_list y_true)"
  assumes len: "length y_proba = length y_true" and ne: "y_proba \<noteq> []"
    and lab: "set y_true \<subseteq> {0, 1}"
    and q: "bins = 1 \<or> (0 < bins \<and> (\<exists>a\<in>set y_proba. \<exists>b\<in>set y_proba. a \<noteq> b))"
    and i: "i < length (categories cat)"
  shows "0 \<le> col_cumulative_class0 t ! i"
    and "col_cumulative_class0 t ! i \<le> int (length y_proba) - sum_list y_true"
    and "0 \<le> col_cumulative_class1 t ! i"
    and "col_cumulative_class1 t ! i \<le> sum_list y_true"
proof -
  have lc: "length (codes cat) = length y_true" by (simp add: cat_def len)
  have nn0: "\<forall>v\<in>set (col_class0 t). 0 \<le> v" and nn1: "\<forall>v\<in>set (col_class1 t). 0 \<le> v"
    unfolding t_def by (rule class_columns_nonneg[OF lc lab])+
  have s0: "sum_list (col_class0 t) = int (length y_proba) - sum_list y_true"
    and s1: "sum_list (col_class1 t) = sum_list y_true"
    unfolding t_def cat_def by (rule table_sums[OF len ne q])+
  have c0: "col_cumulative_class0 t ! i = sum_list (take (Suc i) (col_class0 t))"
    unfolding t_def col_cumulative_class0_build using i by (simp add: cumsum_nth)
  have c1: "col_cumulative_class1 t ! i = sum_list (take (Suc i) (col_class1 t))"
    unfolding t_def col_cumulative_class1_build using i by (simp add: cumsum_nth)
  show "0 \<le> col_cumulative_class0 t ! i"
    unfolding c0 by (rule sum_list_take_nonneg[OF nn0])
  show "col_cumulative_class0 t ! i \<le> int (length y_proba) - sum_list y_true"
    unfolding c0 using sum_list_take_le[OF nn0, of "Suc i"] s0 by simp
  show "0 \<le> col_cumulative_class1 t ! i"
    unfolding c1 by (rule sum_list_take_nonneg[OF nn1])
  show "col_cumulative_class1 t ! i \<le> sum_list y_true"
    unfolding c1 using sum_list_take_le[OF nn1, of "Suc i"] s1 by simp
qed



section \<open>The claims of the specification\<close>

text \<open>
  The theorems are about \<open>fit\<close> with \<open>round_range=False\<close>, the default, unless they
  say otherwise.
\<close>

text \<open>
  Claim C1, as amended. For arrays of equal, non-zero length, and a bin count that is
  \<open>1\<close>, or positive with at least two different probabilities, \<open>fit\<close> returns a result
  whose \<open>size\<close>, \<open>class0\<close> and \<open>class1\<close> columns sum to \<open>obs\<close>, \<open>class0\<close> and \<open>class1\<close>,
  and \<open>obs\<close> is the number of observations. The restriction on the probabilities is
  needed, as the evaluation after the witness shows.
\<close>

theorem fit_totals:
  assumes "length y_proba = length y_true" and "y_proba \<noteq> []"
    and "bins = 1 \<or> (0 < bins \<and> (\<exists>a\<in>set y_proba. \<exists>b\<in>set y_proba. a \<noteq> b))"
  shows "\<exists>r. fit y_proba y_true bins False = Inr r
    \<and> obs r = int (length y_proba)
    \<and> sum_list (col_size (table r)) = obs r
    \<and> sum_list (col_class0 (table r)) = class0 r
    \<and> sum_list (col_class1 (table r)) = class1 r"
  using table_sums[OF assms] by (simp add: fit_False[OF assms(1,2)])

theorem fit_totals_witness:
  "length [1 / 10, 1 / 5, 4 / 5, 9 / 10 :: rat] = length [0, 0, 1, 1 :: int]
   \<and> (\<exists>r. fit [1 / 10, 1 / 5, 4 / 5, 9 / 10] [0, 0, 1, 1] 2 False = Inr r
        \<and> obs r = 4
        \<and> sum_list (col_size (table r)) = obs r
        \<and> sum_list (col_class0 (table r)) = class0 r
        \<and> sum_list (col_class1 (table r)) = class1 r)"
proof -
  have h1: "length [1 / 10, 1 / 5, 4 / 5, 9 / 10 :: rat] = length [0, 0, 1, 1 :: int]" by simp
  have h2: "[1 / 10, 1 / 5, 4 / 5, 9 / 10 :: rat] \<noteq> []" by simp
  have "\<exists>a\<in>set [1 / 10, 1 / 5, 4 / 5, 9 / 10 :: rat].
          \<exists>b\<in>set [1 / 10, 1 / 5, 4 / 5, 9 / 10 :: rat]. a \<noteq> b"
    by (rule bexI[of _ "1 / 10"], rule bexI[of _ "1 / 5"]) simp_all
  then have h3: "(2::nat) = 1 \<or> (0 < (2::nat) \<and> (\<exists>a\<in>set [1 / 10, 1 / 5, 4 / 5, 9 / 10 :: rat].
          \<exists>b\<in>set [1 / 10, 1 / 5, 4 / 5, 9 / 10 :: rat]. a \<noteq> b))"
    by simp
  from fit_totals[OF h1 h2 h3] h1 show ?thesis by simp
qed

text \<open>
  Claim C1 as stated fails when all probabilities are equal and more than one bin is
  asked for (here the default, ten): all quantile edges coincide, one edge is left after
  the duplicates are dropped, no interval can be formed, and every observation gets the
  missing value. The table has no rows, so its \<open>size\<close> column sums to \<open>0\<close>, not to \<open>obs = 2\<close>.
\<close>

theorem fit_totals_counterexample:
  "fit [1 / 2, 1 / 2] [0, 1] 10 False =
     Inr \<lparr>obs = 2, class0 = 1, class1 = 1, ks = NaN,
          table = \<lparr>col_bin = [], col_range = [], col_size = [], col_class0 = [],
                   col_class1 = [], col_odds = [], col_class0_rate = [],
                   col_class1_rate = [], col_remainder_total = [],
                   col_remainder_class0 = [], col_remainder_class1 = [],
                   col_cumulative_class0 = [], col_cumulative_class1 = [],
                   col_abs_difference = []\<rparr>\<rparr>"
  by code_simp

text \<open>
  Claim C2, as amended. For equal-length arrays with labels in \<open>{0, 1}\<close> and both classes
  present, \<open>fit\<close> returns a result whose \<open>ks\<close> is the maximum of the \<open>abs_difference\<close>
  column as \<open>Series.max\<close> computes it. When the bin count is \<open>1\<close>, or positive with at
  least two different probabilities, every entry of the column is a finite number, \<open>ks\<close>
  is one of the entries and no entry is larger, and \<open>ks\<close> lies between \<open>0\<close> and \<open>1\<close>.
\<close>

theorem ks_is_max_abs_difference:
  assumes len: "length y_proba = length y_true"
    and lab: "set y_true \<subseteq> {0, 1}" and z: "0 \<in> set y_true" and o: "1 \<in> set y_true"
  shows "\<exists>r. fit y_proba y_true bins False = Inr r
    \<and> ks r = series_max (col_abs_difference (table r))
    \<and> ((bins = 1 \<or> (0 < bins \<and> (\<exists>a\<in>set y_proba. \<exists>b\<in>set y_proba. a \<noteq> b)))
        \<longrightarrow> (\<exists>m. ks r = Fin m \<and> 0 \<le> m \<and> m \<le> 1
              \<and> Fin m \<in> set (col_abs_difference (table r))
              \<and> (\<forall>d\<in>set (col_abs_difference (table r)). \<exists>v. d = Fin v \<and> v \<le> m)))"
proof -
  define n1 where "n1 = sum_list y_true"
  define n0 where "n0 = int (length y_proba) - sum_list y_true"
  define cat where "cat = bins_to_cuts y_proba (quantile_edges y_proba bins)"
  define t where "t = build_table cat y_true n0 n1"
  from z len have ne: "y_proba \<noteq> []" by auto
  have p1: "0 < n1" unfolding n1_def by (rule label_counts_pos(1)[OF lab o])
  have p0: "0 < n0" unfolding n0_def using label_counts_pos(2)[OF lab z] len by simp
  have ad: "col_abs_difference t =
      map2 (\<lambda>a b. abs_float (sub_float (div_col a n0) (div_col b n1)))
        (col_cumulative_class0 t) (col_cumulative_class1 t)"
    unfolding t_def by (rule col_abs_difference_build)
  have l0: "length (col_cumulative_class0 t) = length (categories cat)"
    and l1: "length (col_cumulative_class1 t) = length (categories cat)"
    unfolding t_def by (simp_all add: col_cumulative_class0_build col_cumulative_class1_build)
  have lad: "length (col_abs_difference t) = length (categories cat)"
    unfolding ad using l0 l1 by simp
  have main: "\<exists>m. series_max (col_abs_difference t) = Fin m \<and> 0 \<le> m \<and> m \<le> 1
      \<and> Fin m \<in> set (col_abs_difference t)
      \<and> (\<forall>d\<in>set (col_abs_difference t). \<exists>v. d = Fin v \<and> v \<le> m)"
    if q: "bins = 1 \<or> (0 < bins \<and> (\<exists>a\<in>set y_proba. \<exists>b\<in>set y_proba. a \<noteq> b))"
  proof -
    have entry: "\<exists>v. d = Fin v \<and> 0 \<le> v \<and> v \<le> 1" if d: "d \<in> set (col_abs_difference t)" for d
    proof -
      from d lad obtain i where i: "i < length (categories cat)" "d = col_abs_difference t ! i"
        by (metis in_set_conv_nth)
      have b: "0 \<le> col_cumulative_class0 t ! i" "col_cumulative_class0 t ! i \<le> n0"
        "0 \<le> col_cumulative_class1 t ! i" "col_cumulative_class1 t ! i \<le> n1"
        using cumulative_bounds[OF len ne lab q, of i] i(1)
        unfolding t_def cat_def n0_def n1_def by simp_all
      have "d = abs_float (sub_float (div_col (col_cumulative_class0 t ! i) n0)
                 (div_col (col_cumulative_class1 t ! i) n1))"
        unfolding i(2) ad using i(1) l0 l1 by simp
      with abs_difference_entry[OF p0 p1 b] show ?thesis by simp
    qed
    have "0 < length (categories cat)"
      unfolding cat_def by (rule categories_nonempty[OF ne q])
    with lad have nonempty: "col_abs_difference t \<noteq> []" by auto
    from entry have "\<forall>d\<in>set (col_abs_difference t). \<exists>v. d = Fin v" by blast
    from series_max_Fin[OF nonempty this] obtain m where
      m: "series_max (col_abs_difference t) = Fin m" "Fin m \<in> set (col_abs_difference t)"
         "\<forall>v. Fin v \<in> set (col_abs_difference t) \<longrightarrow> v \<le> m"
      by blast
    from entry[OF m(2)] have "0 \<le> m \<and> m \<le> 1" by simp
    moreover have "\<forall>d\<in>set (col_abs_difference t). \<exists>v. d = Fin v \<and> v \<le> m"
      using entry m(3) by blast
    ultimately show ?thesis using m(1,2) by blast
  qed
  have "fit y_proba y_true bins False =
      Inr \<lparr>obs = int (length y_proba), class0 = n0, class1 = n1,
           ks = series_max (col_abs_difference t), table = t\<rparr>"
    unfolding t_def cat_def n0_def n1_def by (rule fit_False[OF len ne])
  then show ?thesis using main by simp
qed

theorem ks_is_max_abs_difference_witness:
  "\<exists>r. fit [1 / 10, 1 / 5, 3 / 10, 9 / 10] [0, 1, 0, 1] 4 False = Inr r
    \<and> col_abs_difference (table r) = [Fin (1 / 2), Fin 0, Fin (1 / 2), Fin 0]
    \<and> ks r = series_max (col_abs_difference (table r))
    \<and> (\<exists>m. ks r = Fin m \<and> 0 \<le> m \<and> m \<le> 1
          \<and> Fin m \<in> set (col_abs_difference (table r))
          \<and> (\<forall>d\<in>set (col_abs_difference (table r)). \<exists>v. d = Fin v \<and> v \<le> m))"
proof -
  let ?r = "projr (fit [1 / 10, 1 / 5, 3 / 10, 9 / 10] [0, 1, 0, 1] 4 False)"
  have h1: "length [1 / 10, 1 / 5, 3 / 10, 9 / 10 :: rat] = length [0, 1, 0, 1 :: int]" by simp
  have h2: "set [0, 1, 0, 1 :: int] \<subseteq> {0, 1}" by simp
  have h3: "0 \<in> set [0, 1, 0, 1 :: int]" by simp
  have h4: "1 \<in> set [0, 1, 0, 1 :: int]" by simp
  have "\<exists>a\<in>set [1 / 10, 1 / 5, 3 / 10, 9 / 10 :: rat].
          \<exists>b\<in>set [1 / 10, 1 / 5, 3 / 10, 9 / 10 :: rat]. a \<noteq> b"
    by (rule bexI[of _ "1 / 10"], rule bexI[of _ "1 / 5"]) simp_all
  then have h5: "(4::nat) = 1 \<or> (0 < (4::nat) \<and> (\<exists>a\<in>set [1 / 10, 1 / 5, 3 / 10, 9 / 10 :: rat].
          \<exists>b\<in>set [1 / 10, 1 / 5, 3 / 10, 9 / 10 :: rat]. a \<noteq> b))"
    by simp
  have e: "col_abs_difference (table ?r) = [Fin (1 / 2), Fin 0, Fin (1 / 2), Fin 0]"
    by code_simp
  from ks_is_max_abs_difference[OF h1 h2 h3 h4, of 4] h5 e show ?thesis by auto
qed

text \<open>
  Claim C2 as stated fails for equal probabilities and more than one bin: the
  \<open>abs_difference\<close> column is empty and its maximum is NaN, which is no number of the
  interval from \<open>0\<close> to \<open>1\<close>.
\<close>

theorem ks_is_max_abs_difference_counterexample:
  "\<not> isl (fit [1 / 2, 1 / 2] [0, 1] 2 False)
   \<and> col_abs_difference (table (projr (fit [1 / 2, 1 / 2] [0, 1] 2 False))) = []
   \<and> ks (projr (fit [1 / 2, 1 / 2] [0, 1] 2 False)) = NaN"
  by code_simp

text \<open>
  Claim C3, as amended. For equal-length, non-empty arrays with labels in \<open>{0, 1}\<close>,
  \<open>fit\<close> returns a table whose \<open>cumulative_class0\<close> and \<open>cumulative_class1\<close> columns are
  non-decreasing. When the bin count is \<open>1\<close>, or positive with at least two different
  probabilities, the table has a last bin and the two columns end there at \<open>class0\<close> and
  \<open>class1\<close>.
\<close>

theorem cumulative_columns:
  assumes len: "length y_proba = length y_true" and ne: "y_proba \<noteq> []"
    and lab: "set y_true \<subseteq> {0, 1}"
  shows "\<exists>r. fit y_proba y_true bins False = Inr r
    \<and> sorted (col_cumulative_class0 (table r))
    \<and> sorted (col_cumulative_class1 (table r))
    \<and> ((bins = 1 \<or> (0 < bins \<and> (\<exists>a\<in>set y_proba. \<exists>b\<in>set y_proba. a \<noteq> b)))
        \<longrightarrow> col_bin (table r) \<noteq> []
          \<and> length (col_cumulative_class0 (table r)) = length (col_bin (table r))
          \<and> length (col_cumulative_class1 (table r)) = length (col_bin (table r))
          \<and> last (col_cumulative_class0 (table r)) = class0 r
          \<and> last (col_cumulative_class1 (table r)) = class1 r)"
proof -
  define cat where "cat = bins_to_cuts y_proba (quantile_edges y_proba bins)"
  define t where
    "t = build_table cat y_true (int (length y_proba) - sum_list y_true) (sum_list y_true)"
  have lc: "length (codes cat) = length y_true" by (simp add: cat_def len)
  have nn0: "\<forall>v\<in>set (col_class0 t). 0 \<le> v" and nn1: "\<forall>v\<in>set (col_class1 t). 0 \<le> v"
    unfolding t_def by (rule class_columns_nonneg[OF lc lab])+
  have so0: "sorted (col_cumulative_class0 t)"
    unfolding t_def col_cumulative_class0_build using nn0 unfolding t_def by (rule sorted_cumsum)
  have so1: "sorted (col_cumulative_class1 t)"
    unfolding t_def col_cumulative_class1_build using nn1 unfolding t_def by (rule sorted_cumsum)
  have l0: "length (col_cumulative_class0 t) = length (col_bin t)"
    and l1: "length (col_cumulative_class1 t) = length (col_bin t)"
    unfolding t_def by (simp_all add: col_cumulative_class0_build col_cumulative_class1_build)
  have fin: "col_bin t \<noteq> []
      \<and> last (col_cumulative_class0 t) = int (length y_proba) - sum_list y_true
      \<and> last (col_cumulative_class1 t) = sum_list y_true"
    if q: "bins = 1 \<or> (0 < bins \<and> (\<exists>a\<in>set y_proba. \<exists>b\<in>set y_proba. a \<noteq> b))"
  proof -
    have k: "0 < length (categories cat)"
      unfolding cat_def by (rule categories_nonempty[OF ne q])
    then have b: "col_bin t \<noteq> []" unfolding t_def by (metis length_col_bin length_greater_0_conv)
    from k have n0: "col_class0 t \<noteq> []" and n1: "col_class1 t \<noteq> []"
      unfolding t_def by (metis length_col_class0 length_greater_0_conv)
        (metis k length_col_class1 length_greater_0_conv)
    have "last (col_cumulative_class0 t) = sum_list (col_class0 t)"
      unfolding t_def col_cumulative_class0_build using n0 unfolding t_def by (rule last_cumsum)
    moreover have "last (col_cumulative_class1 t) = sum_list (col_class1 t)"
      unfolding t_def col_cumulative_class1_build using n1 unfolding t_def by (rule last_cumsum)
    moreover have "sum_list (col_class0 t) = int (length y_proba) - sum_list y_true"
      and "sum_list (col_class1 t) = sum_list y_true"
      unfolding t_def cat_def by (rule table_sums[OF len ne q])+
    ultimately show ?thesis using b by simp
  qed
  have "fit y_proba y_true bins False =
      Inr \<lparr>obs = int (length y_proba), class0 = int (length y_proba) - sum_list y_true,
           class1 = sum_list y_true, ks = series_max (col_abs_difference t), table = t\<rparr>"
    unfolding t_def cat_def by (rule fit_False[OF len ne])
  then show ?thesis using so0 so1 l0 l1 fin by simp
qed

theorem cumulative_columns_witness:
  "\<exists>r. fit [1 / 10, 1 / 5, 4 / 5, 9 / 10] [0, 0, 1, 1] 2 False = Inr r
    \<and> sorted (col_cumulative_class0 (table r))
    \<and> sorted (col_cumulative_class1 (table r))
    \<and> col_bin (table r) \<noteq> []
    \<and> last (col_cumulative_class0 (table r)) = class0 r
    \<and> last (col_cumulative_class1 (table r)) = class1 r"
proof -
  have h1: "length [1 / 10, 1 / 5, 4 / 5, 9 / 10 :: rat] = length [0, 0, 1, 1 :: int]" by simp
  have h2: "[1 / 10, 1 / 5, 4 / 5, 9 / 10 :: rat] \<noteq> []" by simp
  have h3: "set [0, 0, 1, 1 :: int] \<subseteq> {0, 1}" by simp
  have "\<exists>a\<in>set [1 / 10, 1 / 5, 4 / 5, 9 / 10 :: rat].
          \<exists>b\<in>set [1 / 10, 1 / 5, 4 / 5, 9 / 10 :: rat]. a \<noteq> b"
    by (rule bexI[of _ "1 / 10"], rule bexI[of _ "1 / 5"]) simp_all
  then have h4: "(2::nat) = 1 \<or> (0 < (2::nat) \<and> (\<exists>a\<in>set [1 / 10, 1 / 5, 4 / 5, 9 / 10 :: rat].
          \<exists>b\<in>set [1 / 10, 1 / 5, 4 / 5, 9 / 10 :: rat]. a \<noteq> b))"
    by simp
  from cumulative_columns[OF h1 h2 h3, of 2] h4 show ?thesis by blast
qed

text \<open>
  Claim C3 as stated fails for equal probabilities and more than one bin: the table has no
  bin at all, so the cumulative columns are empty and never reach \<open>class0 = 1\<close> and
  \<open>class1 = 2\<close>.
\<close>

theorem cumulative_columns_counterexample:
  "\<not> isl (fit [3 / 10, 3 / 10, 3 / 10] [0, 1, 1] 10 False)
   \<and> col_cumulative_class0 (table (projr (fit [3 / 10, 3 / 10, 3 / 10] [0, 1, 1] 10 False))) = []
   \<and> col_cumulative_class1 (table (projr (fit [3 / 10, 3 / 10, 3 / 10] [0, 1, 1] 10 False))) = []
   \<and> class0 (projr (fit [3 / 10, 3 / 10, 3 / 10] [0, 1, 1] 10 False)) = 1
   \<and> class1 (projr (fit [3 / 10, 3 / 10, 3 / 10] [0, 1, 1] 10 False)) = 2"
  by code_simp



text \<open>
  Claim C5, evaluated at the input of the perfect-separation scenario with
  \<open>round_range=True\<close>: the call of line 88 hands the keyword \<open>axis\<close> to a lambda of one
  parameter, so \<open>fit\<close> raises \<open>TypeError\<close> and returns no table at all, where the claim
  expects the table of \<open>round_range=False\<close> with rounded interval boundaries.
\<close>

theorem fit_round_range_raises:
  "fit [1 / 10, 1 / 5, 4 / 5, 9 / 10] [0, 0, 1, 1] 2 True = Inl TypeError"
  by code_simp




text \<open>
  Claim C7. For equal-length arrays with labels in \<open>{0, 1}\<close> and both classes present,
  \<open>fit\<close> with \<open>bins=1\<close> returns a table with exactly one bin, which holds all
  observations; its \<open>abs_difference\<close> is \<open>0\<close> and so is the Kolmogorov-Smirnov coefficient.
\<close>

theorem fit_single_bin:
  assumes len: "length y_proba = length y_true"
    and lab: "set y_true \<subseteq> {0, 1}" and z: "0 \<in> set y_true" and o: "1 \<in> set y_true"
  shows "\<exists>r. fit y_proba y_true 1 False = Inr r
    \<and> col_bin (table r) = [1]
    \<and> col_size (table r) = [int (length y_proba)]
    \<and> col_class0 (table r) = [class0 r]
    \<and> col_class1 (table r) = [class1 r]
    \<and> col_abs_difference (table r) = [Fin 0]
    \<and> ks r = Fin 0"
proof -
  define n1 where "n1 = sum_list y_true"
  define n0 where "n0 = int (length y_proba) - sum_list y_true"
  define cat where "cat = bins_to_cuts y_proba (quantile_edges y_proba 1)"
  define t where "t = build_table cat y_true n0 n1"
  from z len have ne: "y_proba \<noteq> []" by auto
  have q: "(1::nat) = 1 \<or> (0 < (1::nat) \<and> (\<exists>a\<in>set y_proba. \<exists>b\<in>set y_proba. a \<noteq> b))"
    by simp
  have p1: "0 < n1" unfolding n1_def by (rule label_counts_pos(1)[OF lab o])
  have p0: "0 < n0" unfolding n0_def using label_counts_pos(2)[OF lab z] len by simp
  have k: "length (categories cat) = 1" unfolding cat_def by (rule categories_single)
  have "length (col_size t) = 1" unfolding t_def using k by simp
  then have "col_size t = [sum_list (col_size t)]" by (rule singleton_sum)
  moreover have "sum_list (col_size t) = int (length y_proba)"
    unfolding t_def cat_def n0_def n1_def by (rule table_sums(1)[OF len ne q])
  ultimately have size: "col_size t = [int (length y_proba)]" by simp
  have "length (col_class1 t) = 1" unfolding t_def using k by simp
  then have "col_class1 t = [sum_list (col_class1 t)]" by (rule singleton_sum)
  moreover have "sum_list (col_class1 t) = n1"
    unfolding t_def cat_def n0_def n1_def by (rule table_sums(2)[OF len ne q])
  ultimately have c1: "col_class1 t = [n1]" by simp
  have "col_class0 t = map2 (\<lambda>s c. s - c) (col_size t) (col_class1 t)"
    unfolding t_def by (rule col_class0_build)
  then have c0: "col_class0 t = [n0]" unfolding size c1 by (simp add: n0_def n1_def)
  have cu0: "col_cumulative_class0 t = [n0]"
    using c0 unfolding t_def col_cumulative_class0_build by simp
  have cu1: "col_cumulative_class1 t = [n1]"
    using c1 unfolding t_def col_cumulative_class1_build by simp
  have "col_abs_difference t =
      map2 (\<lambda>a b. abs_float (sub_float (div_col a n0) (div_col b n1)))
        (col_cumulative_class0 t) (col_cumulative_class1 t)"
    unfolding t_def by (rule col_abs_difference_build)
  then have ad: "col_abs_difference t = [Fin 0]"
    unfolding cu0 cu1 using p0 p1 by (simp add: div_col_def)
  have bin: "col_bin t = [1]" unfolding t_def col_bin_build k by simp
  have "fit y_proba y_true 1 False =
      Inr \<lparr>obs = int (length y_proba), class0 = n0, class1 = n1,
           ks = series_max (col_abs_difference t), table = t\<rparr>"
    unfolding t_def cat_def n0_def n1_def by (rule fit_False[OF len ne])
  then show ?thesis using bin size c0 c1 ad by (simp add: series_max_def)
qed

theorem fit_single_bin_witness:
  "\<exists>r. fit [1 / 2, 1 / 2, 7 / 10] [0, 1, 1] 1 False = Inr r
    \<and> col_bin (table r) = [1]
    \<and> col_size (table r) = [3]
    \<and> col_class0 (table r) = [class0 r]
    \<and> col_class1 (table r) = [class1 r]
    \<and> col_abs_difference (table r) = [Fin 0]
    \<and> ks r = Fin 0"
  using fit_single_bin[of "[1 / 2, 1 / 2, 7 / 10]" "[0, 1, 1]"] by simp




text \<open>
  Claim C9. For probabilities \<open>[0.1, 0.2, 0.8, 0.9]\<close>, labels \<open>[0, 0, 1, 1]\<close> and two
  bins, the table has exactly two bins of size \<open>2\<close>, the first with class 0 only and the
  second with class 1 only, and the Kolmogorov-Smirnov coefficient is \<open>1\<close>.
\<close>

theorem fit_perfect_separation:
  "\<exists>r. fit [1 / 10, 1 / 5, 4 / 5, 9 / 10] [0, 0, 1, 1] 2 False = Inr r
     \<and> col_bin (table r) = [1, 2]
     \<and> col_size (table r) = [2, 2]
     \<and> col_class0 (table r) = [2, 0]
     \<and> col_class1 (table r) = [0, 2]
     \<and> col_abs_difference (table r) = [Fin 1, Fin 0]
     \<and> ks r = Fin 1"
proof -
  have "fit [1 / 10, 1 / 5, 4 / 5, 9 / 10] [0, 0, 1, 1] 2 False =
     Inr \<lparr>obs = 4, class0 = 2, class1 = 2, ks = Fin 1,
          table = \<lparr>col_bin = [1, 2],
                   col_range = [\<lparr>left = 99 / 1000, right = 1 / 2\<rparr>,
                                \<lparr>left = 1 / 2, right = 9 / 10\<rparr>],
                   col_size = [2, 2], col_class0 = [2, 0], col_class1 = [0, 2],
                   col_odds = [PInf, Fin 0],
                   col_class0_rate = [Fin 1, Fin 0],
                   col_class1_rate = [Fin 0, Fin 1],
                   col_remainder_total = [4, 2],
                   col_remainder_class0 = [2, 0],
                   col_remainder_class1 = [2, 2],
                   col_cumulative_class0 = [2, 2],
                   col_cumulative_class1 = [0, 2],
                   col_abs_difference = [Fin 1, Fin 0]\<rparr>\<rparr>"
    by code_simp
  then show ?thesis by simp
qed

text \<open>
  Claim C10. In every table that \<open>fit\<close> returns, the three remainder columns have one
  entry per bin, and in every bin \<open>remainder_class0 + remainder_class1 = remainder_total\<close>.
  The identity needs nothing of the labels: it follows from \<open>class0 = size - class1\<close>.
\<close>

theorem remainder_columns_decompose:
  assumes "fit y_proba y_true bins round_range = Inr r"
  shows "length (col_remainder_total (table r)) = length (col_bin (table r))
    \<and> length (col_remainder_class0 (table r)) = length (col_bin (table r))
    \<and> length (col_remainder_class1 (table r)) = length (col_bin (table r))
    \<and> (\<forall>i<length (col_bin (table r)).
          col_remainder_class0 (table r) ! i + col_remainder_class1 (table r) ! i
            = col_remainder_total (table r) ! i)"
proof -
  from fit_InrD[OF assms] obtain cat where
    t: "table r = build_table cat y_true (int (length y_proba) - sum_list y_true) (sum_list y_true)"
    by blast
  have "length (col_remainder_total (table r)) = length (col_bin (table r))"
    unfolding t by (simp add: col_remainder_total_build)
  moreover have "length (col_remainder_class0 (table r)) = length (col_bin (table r))"
    unfolding t by (simp add: col_remainder_class0_build)
  moreover have "length (col_remainder_class1 (table r)) = length (col_bin (table r))"
    unfolding t by (simp add: col_remainder_class1_build)
  moreover have "\<forall>i<length (col_bin (table r)).
      col_remainder_class0 (table r) ! i + col_remainder_class1 (table r) ! i
        = col_remainder_total (table r) ! i"
    unfolding t by (simp add: remainder_identity)
  ultimately show ?thesis by blast
qed

theorem remainder_columns_decompose_witness:
  "\<exists>r. fit [1 / 10, 1 / 5, 4 / 5, 9 / 10] [0, 0, 1, 1] 2 False = Inr r
     \<and> col_remainder_total (table r) = [4, 2]
     \<and> length (col_remainder_total (table r)) = length (col_bin (table r))
     \<and> length (col_remainder_class0 (table r)) = length (col_bin (table r))
     \<and> length (col_remainder_class1 (table r)) = length (col_bin (table r))
     \<and> (\<forall>i<length (col_bin (table r)).
          col_remainder_class0 (table r) ! i + col_remainder_class1 (table r) ! i
            = col_remainder_total (table r) ! i)"
proof -
  let ?r = "projr (fit [1 / 10, 1 / 5, 4 / 5, 9 / 10] [0, 0, 1, 1] 2 False)"
  have "\<not> isl (fit [1 / 10, 1 / 5, 4 / 5, 9 / 10] [0, 0, 1, 1] 2 False)"
    by code_simp
  then have r: "fit [1 / 10, 1 / 5, 4 / 5, 9 / 10] [0, 0, 1, 1] 2 False = Inr ?r"
    by simp
  have t: "col_remainder_total (table ?r) = [4, 2]"
    by code_simp
  from remainder_columns_decompose[OF r] r t show ?thesis by blast
qed

end
